theory Spec2Isabelle
  imports Main "HOL-Library.Sublist"
begin

section \<open>The scanning engine of json\_replace.cpp\<close>

text \<open>
  The program walks two raw pointers over a NUL-terminated C string: \<open>src\<close> reads the
  input, \<open>dest\<close> appends to a buffer of \<open>strlen(str) + 1\<close> bytes. The model passes both
  explicitly: \<open>src\<close> is the list of bytes from the read cursor up to (not including) the
  terminator, so the empty list is the cursor standing on the terminator, and \<open>dest\<close> is
  the list of bytes written so far.

  No routine checks a bound. Whenever a routine consumes the terminator, its next
  statement dereferences the cursor beyond the string, which C leaves undefined; the
  model makes that outcome the value \<open>ReadPastTerminator\<close>. The only exception of the
  program, \<open>std::invalid_argument\<close>, is \<open>UnsupportedValue\<close>.
\<close>

datatype error = UnsupportedValue | ReadPastTerminator

abbreviation NUL :: char where "NUL \<equiv> CHR 0x00"
abbreviation QUOTE :: char where "QUOTE \<equiv> CHR 0x22"
abbreviation BACKSLASH :: char where "BACKSLASH \<equiv> CHR 0x5C"
abbreviation LBRACKET :: char where "LBRACKET \<equiv> CHR ''[''"
abbreviation RBRACKET :: char where "RBRACKET \<equiv> CHR '']''"

text \<open>The macros \<open>TARGET_SUFFIX\<close>, \<open>REPLACE_CHAR\<close> and \<open>ESCAPED_TARGET_SUFFIX\<close>.\<close>

definition TARGET_SUFFIX :: string where
  "TARGET_SUFFIX = ''_X''"

definition REPLACE_CHAR :: char where
  "REPLACE_CHAR = CHR ''*''"

definition ESCAPED_TARGET_SUFFIX :: string where
  "ESCAPED_TARGET_SUFFIX = TARGET_SUFFIX @ [QUOTE]"

subsection \<open>read\_json\_filler (lines 36-42)\<close>

fun read_json_filler :: "string \<Rightarrow> string \<Rightarrow> string \<times> string" where
  "read_json_filler [] dest = ([], dest)"
| "read_json_filler (c # src) dest =
     (if c \<noteq> NUL \<and> c \<noteq> QUOTE \<and> c \<noteq> LBRACKET
      then read_json_filler src (dest @ [c])
      else (c # src, dest))"

subsection \<open>read\_json\_string (lines 78-92)\<close>

text \<open>
  \<open>copy_body\<close> is the while loop of lines 83-89 together with line 91, the copy of the
  closing quote the loop stopped at. The flag passed on is what the loop body leaves in
  \<open>escaped\<close>: true exactly when the byte just copied is a backslash.
\<close>

fun copy_body :: "bool \<Rightarrow> string \<Rightarrow> string \<Rightarrow> error + string \<times> string" where
  "copy_body escaped [] dest = Inl ReadPastTerminator"
| "copy_body escaped (c # src) dest =
     (if c \<noteq> QUOTE \<or> escaped
      then copy_body (c = BACKSLASH) src (dest @ [c])
      else Inr (src, dest @ [c]))"

text \<open>Line 80 copies the byte under the cursor without looking at it.\<close>

fun read_json_string :: "string \<Rightarrow> string \<Rightarrow> error + string \<times> string" where
  "read_json_string [] dest = Inl ReadPastTerminator"
| "read_json_string (c # src) dest = copy_body False src (dest @ [c])"

subsection \<open>read\_and\_replace\_json\_string (lines 50-71)\<close>

text \<open>
  \<open>skip_body\<close> is the while loop of lines 61-67, which advances \<open>src\<close> only, together
  with lines 69-70: the placeholder and the closing quote.
\<close>

fun skip_body :: "bool \<Rightarrow> string \<Rightarrow> string \<Rightarrow> error + string \<times> string" where
  "skip_body escaped [] dest = Inl ReadPastTerminator"
| "skip_body escaped (c # src) dest =
     (if c \<noteq> QUOTE \<or> escaped
      then skip_body (c = BACKSLASH) src dest
      else Inr (src, dest @ [REPLACE_CHAR, c]))"

fun read_and_replace_json_string :: "string \<Rightarrow> string \<Rightarrow> error + string \<times> string" where
  "read_and_replace_json_string [] dest = Inl ReadPastTerminator"
| "read_and_replace_json_string [c] dest = Inl ReadPastTerminator"
| "read_and_replace_json_string (c # c' # src) dest =
     (if c' = QUOTE
      then Inr (src, dest @ [c, c'])
      else skip_body False (c' # src) (dest @ [c]))"

subsection \<open>read\_json\_value (lines 103-134)\<close>

lemma copy_body_shorter:
  "copy_body escaped src dest = Inr (src', dest') \<Longrightarrow> length src' < length src"
  by (induction escaped src dest rule: copy_body.induct) (auto split: if_splits)

lemma read_json_string_shorter:
  "read_json_string src dest = Inr (src', dest') \<Longrightarrow> length src' < length src"
  by (cases src) (auto dest: copy_body_shorter)

lemma skip_body_shorter:
  "skip_body escaped src dest = Inr (src', dest') \<Longrightarrow> length src' < length src"
  by (induction escaped src dest rule: skip_body.induct) (auto split: if_splits)

lemma read_and_replace_json_string_shorter:
  "read_and_replace_json_string src dest = Inr (src', dest') \<Longrightarrow> length src' < length src"
  by (induction src dest rule: read_and_replace_json_string.induct)
     (auto split: if_splits dest: skip_body_shorter)

text \<open>
  \<open>array_elements\<close> is the while loop of lines 117-128 together with line 129, the copy
  of the closing bracket.
\<close>

function array_elements :: "bool \<Rightarrow> string \<Rightarrow> string \<Rightarrow> error + string \<times> string" where
  "array_elements replace [] dest = Inl ReadPastTerminator"
| "array_elements replace (c # src) dest =
     (if c = RBRACKET then Inr (src, dest @ [c])
      else if c = QUOTE then
        (case (if replace then read_and_replace_json_string (c # src) dest
               else read_json_string (c # src) dest) of
           Inl e \<Rightarrow> Inl e
         | Inr (src', dest') \<Rightarrow> array_elements replace src' dest')
      else array_elements replace src (dest @ [c]))"
  by pat_completeness auto
termination
proof (relation "measure (\<lambda>(replace, src, dest). length src)", goal_cases)
  case 1
  show ?case by simp
next
  case (2 replace c src dest x2 src' dest')
  then have "length src' < length (c # src)"
    by (auto split: if_splits
        simp del: read_json_string.simps read_and_replace_json_string.simps
        dest: read_json_string_shorter read_and_replace_json_string_shorter)
  then show ?case by simp
next
  case (3 replace c src dest)
  show ?case by simp
qed

fun read_json_value :: "string \<Rightarrow> string \<Rightarrow> bool \<Rightarrow> error + string \<times> string" where
  "read_json_value [] dest replace = Inl UnsupportedValue"
| "read_json_value (c # src) dest replace =
     (if c = QUOTE then
        (if replace then read_and_replace_json_string (c # src) dest
         else read_json_string (c # src) dest)
      else if c = LBRACKET then array_elements replace src (dest @ [c])
      else Inl UnsupportedValue)"

subsection \<open>json\_replace\_no\_try\_catch (lines 143-167)\<close>

definition min_key_len :: nat where
  "min_key_len = length ESCAPED_TARGET_SUFFIX"

text \<open>
  Line 154-155, with \<open>temp\<close> the buffer before the key was copied and \<open>dest\<close> the buffer
  after it. The three bytes \<open>strncmp\<close> reads lie in the written part of the buffer, and
  the literal holds no NUL before its end, so the comparison is equality of bytes.
\<close>

definition replace_decision :: "string \<Rightarrow> string \<Rightarrow> bool" where
  "replace_decision temp dest =
     (length dest - length temp \<ge> min_key_len \<and>
      drop (length dest - min_key_len) dest = ESCAPED_TARGET_SUFFIX)"

text \<open>One pass of the loop body, lines 149-164.\<close>

definition key_value_pass :: "string \<Rightarrow> string \<Rightarrow> error + string \<times> string" where
  "key_value_pass src dest =
     (case read_json_filler src dest of (src1, temp) \<Rightarrow>
      case read_json_string src1 temp of
        Inl e \<Rightarrow> Inl e
      | Inr (src2, dest2) \<Rightarrow>
          (case read_json_filler src2 dest2 of (src3, dest3) \<Rightarrow>
           case read_json_value src3 dest3 (replace_decision temp dest2) of
             Inl e \<Rightarrow> Inl e
           | Inr (src4, dest4) \<Rightarrow> Inr (read_json_filler src4 dest4)))"

lemma read_json_filler_length:
  "read_json_filler src dest = (src', dest') \<Longrightarrow> length src' \<le> length src"
  by (induction src dest rule: read_json_filler.induct) (auto split: if_splits)

lemma array_elements_shorter:
  "array_elements replace src dest = Inr (src', dest') \<Longrightarrow> length src' < length src"
proof (induction replace src dest rule: array_elements.induct)
  case (1 replace dest)
  then show ?case by simp
next
  case (2 replace c src dest)
  show ?case
  proof (cases "c = RBRACKET")
    case True
    with "2.prems" show ?thesis by auto
  next
    case nb: False
    show ?thesis
    proof (cases "c = QUOTE")
      case True
      from "2.prems" nb True obtain s d where
        rd: "(if replace then read_and_replace_json_string (c # src) dest
              else read_json_string (c # src) dest) = Inr (s, d)"
        and rest: "array_elements replace s d = Inr (src', dest')"
        by (auto split: sum.splits)
      from rd have "length s < length (c # src)"
        by (auto split: if_splits
            simp del: read_json_string.simps read_and_replace_json_string.simps
            dest: read_json_string_shorter read_and_replace_json_string_shorter)
      moreover from "2.IH"(1)[OF nb True rd refl rest]
      have "length src' < length s" .
      ultimately show ?thesis by simp
    next
      case False
      with "2.prems" nb have "array_elements replace src (dest @ [c]) = Inr (src', dest')"
        by simp
      from "2.IH"(2)[OF nb False this] show ?thesis by simp
    qed
  qed
qed

lemma read_json_value_shorter:
  assumes "read_json_value src dest replace = Inr (src', dest')"
  shows "length src' < length src"
proof (cases src)
  case Nil
  with assms show ?thesis by simp
next
  case (Cons c s)
  note r = assms
  show ?thesis
  proof (cases "c = QUOTE")
    case True
    with r Cons have
      "(if replace then read_and_replace_json_string src dest
        else read_json_string src dest) = Inr (src', dest')"
      by (cases replace)
         (simp_all del: read_json_string.simps read_and_replace_json_string.simps)
    then show ?thesis
      by (auto split: if_splits
          dest: read_json_string_shorter read_and_replace_json_string_shorter)
  next
    case False
    with r Cons have "array_elements replace s (dest @ [c]) = Inr (src', dest')"
      by (auto split: if_splits)
    from array_elements_shorter[OF this] Cons show ?thesis by simp
  qed
qed

lemma key_value_pass_shorter:
  assumes "key_value_pass src dest = Inr (src', dest')"
  shows "length src' < length src"
proof -
  obtain s1 t where f1: "read_json_filler src dest = (s1, t)"
    by (cases "read_json_filler src dest")
  from assms f1 obtain s2 d2 where k: "read_json_string s1 t = Inr (s2, d2)"
    by (auto simp: key_value_pass_def split: sum.splits)
  obtain s3 d3 where f2: "read_json_filler s2 d2 = (s3, d3)"
    by (cases "read_json_filler s2 d2")
  from assms f1 k f2 obtain s4 d4 where
    v: "read_json_value s3 d3 (replace_decision t d2) = Inr (s4, d4)"
    and f3: "read_json_filler s4 d4 = (src', dest')"
    by (auto simp: key_value_pass_def split: sum.splits)
  from read_json_filler_length[OF f1] read_json_string_shorter[OF k]
    read_json_filler_length[OF f2] read_json_value_shorter[OF v]
    read_json_filler_length[OF f3]
  show ?thesis by linarith
qed

text \<open>
  The loop of line 147 and the terminator written at line 166: the result is the
  content of the destination buffer.
\<close>

function json_replace_no_try_catch :: "string \<Rightarrow> string \<Rightarrow> error + string" where
  "json_replace_no_try_catch src dest =
     (if src = [] \<or> hd src = NUL then Inr dest
      else
        (case key_value_pass src dest of
           Inl e \<Rightarrow> Inl e
         | Inr (src', dest') \<Rightarrow> json_replace_no_try_catch src' dest'))"
  by pat_completeness auto
termination
  by (relation "measure (\<lambda>(src, dest). length src)")
     (auto dest: key_value_pass_shorter)

declare json_replace_no_try_catch.simps [simp del]

subsection \<open>json\_replace (lines 176-190)\<close>

text \<open>
  The bytes of a C string: everything before the first NUL. \<open>json_replace\<close> receives
  a \<open>const char *\<close> and builds the result with \<open>std::string new_str (dest)\<close>; both read
  up to the terminator. The handler of line 186 throws the exception it caught anew.
\<close>

definition c_string :: "string \<Rightarrow> string" where
  "c_string s = takeWhile (\<lambda>c. c \<noteq> NUL) s"

definition json_replace :: "string \<Rightarrow> error + string" where
  "json_replace str =
     (case json_replace_no_try_catch (c_string str) [] of
        Inl UnsupportedValue \<Rightarrow> Inl UnsupportedValue
      | Inl ReadPastTerminator \<Rightarrow> Inl ReadPastTerminator
      | Inr dest \<Rightarrow> Inr (c_string dest))"

section \<open>Documents as the scanners read them, and their masked copy\<close>

text \<open>
  The texts on which the scan stays inside the input, as data. A document is a leading
  filler span followed by members; a member is a quoted key, a filler span, a value and
  a trailing filler span; a value is a quoted string or a bracketed array of quoted
  strings. The empty document is the empty input; a span of filler with no member after
  it is not a document.

  Filler is any run of bytes other than the quote, the open bracket and NUL. Inside an
  array, the bytes around the elements are any run of bytes other than the quote, the
  close bracket and NUL, which covers commas and whitespace.

  A string body here is what the string readers take for one: a quote belongs to the
  body only directly after a backslash, and the byte before the closing quote is not a
  backslash. This is not the body of a JSON string literal, which \<open>json_body\<close> below
  describes: the two differ where an escaped backslash stands directly before a quote.
  A C string holds no NUL.
\<close>

definition filler :: "string \<Rightarrow> bool" where
  "filler f = (\<forall>c \<in> set f. c \<noteq> NUL \<and> c \<noteq> QUOTE \<and> c \<noteq> LBRACKET)"

definition gap :: "string \<Rightarrow> bool" where
  "gap g = (\<forall>c \<in> set g. c \<noteq> NUL \<and> c \<noteq> QUOTE \<and> c \<noteq> RBRACKET)"

fun body_after :: "char \<Rightarrow> string \<Rightarrow> bool" where
  "body_after prev [] = (prev \<noteq> BACKSLASH)"
| "body_after prev (c # cs) =
     (c \<noteq> NUL \<and> (c = QUOTE \<longrightarrow> prev = BACKSLASH) \<and> body_after c cs)"

definition string_body :: "string \<Rightarrow> bool" where
  "string_body b = body_after QUOTE b"

definition quoted :: "string \<Rightarrow> string" where
  "quoted b = QUOTE # b @ [QUOTE]"

text \<open>
  The body of a JSON string literal: a backslash escapes the one byte after it, whatever
  that byte is, so a backslash that is itself escaped escapes nothing, and a quote
  closes the literal unless an unescaped backslash stands directly before it.
\<close>

fun json_body :: "bool \<Rightarrow> string \<Rightarrow> bool" where
  "json_body escaped [] = (\<not> escaped)"
| "json_body escaped (c # cs) =
     (c \<noteq> NUL \<and> (escaped \<or> c \<noteq> QUOTE) \<and> json_body (\<not> escaped \<and> c = BACKSLASH) cs)"

text \<open>
  An array is its first gap and its elements, each a string body with the gap after it.
\<close>

datatype jvalue = JString string | JArray string "(string \<times> string) list"

fun elements_text :: "(string \<times> string) list \<Rightarrow> string" where
  "elements_text [] = []"
| "elements_text ((b, g) # es) = quoted b @ g @ elements_text es"

fun value_text :: "jvalue \<Rightarrow> string" where
  "value_text (JString b) = quoted b"
| "value_text (JArray g es) = LBRACKET # g @ elements_text es @ [RBRACKET]"

definition elements_ok :: "(string \<times> string) list \<Rightarrow> bool" where
  "elements_ok es = (\<forall>(b, g) \<in> set es. string_body b \<and> gap g)"

fun value_ok :: "jvalue \<Rightarrow> bool" where
  "value_ok (JString b) = string_body b"
| "value_ok (JArray g es) = (gap g \<and> elements_ok es)"

datatype member = Member (key: string) (sep: string) (val: jvalue) (trail: string)

definition member_text :: "member \<Rightarrow> string" where
  "member_text m = quoted (key m) @ sep m @ value_text (val m) @ trail m"

definition member_ok :: "member \<Rightarrow> bool" where
  "member_ok m =
     (string_body (key m) \<and> filler (sep m) \<and> value_ok (val m) \<and> filler (trail m))"

definition members_text :: "member list \<Rightarrow> string" where
  "members_text ms = concat (map member_text ms)"

definition document_text :: "string \<Rightarrow> member list \<Rightarrow> string" where
  "document_text lead ms = lead @ members_text ms"

definition document_ok :: "string \<Rightarrow> member list \<Rightarrow> bool" where
  "document_ok lead ms =
     (filler lead \<and> (ms = [] \<longrightarrow> lead = []) \<and> (\<forall>m \<in> set ms. member_ok m))"

text \<open>
  Masking, as the specification words it: a key is a target when its text ends with the
  suffix; a non-empty body becomes the placeholder, an empty one stays empty; an array
  is masked element by element; everything else is kept.
\<close>

definition target_key :: "string \<Rightarrow> bool" where
  "target_key k = suffix TARGET_SUFFIX k"

definition mask_body :: "string \<Rightarrow> string" where
  "mask_body b = (if b = [] then [] else [REPLACE_CHAR])"

definition mask_elements :: "(string \<times> string) list \<Rightarrow> (string \<times> string) list" where
  "mask_elements es = map (\<lambda>(b, g). (mask_body b, g)) es"

fun mask_value :: "jvalue \<Rightarrow> jvalue" where
  "mask_value (JString b) = JString (mask_body b)"
| "mask_value (JArray g es) = JArray g (mask_elements es)"

definition written_value :: "bool \<Rightarrow> jvalue \<Rightarrow> jvalue" where
  "written_value replace v = (if replace then mask_value v else v)"

definition mask_member :: "member \<Rightarrow> member" where
  "mask_member m =
     (if target_key (key m) then Member (key m) (sep m) (mask_value (val m)) (trail m)
      else m)"

text \<open>Where the filler scanner stops: at the terminator, a quote or an open bracket.\<close>

definition at_token :: "string \<Rightarrow> bool" where
  "at_token src = (src = [] \<or> hd src = NUL \<or> hd src = QUOTE \<or> hd src = LBRACKET)"

section \<open>The scanners on well-formed spans\<close>

lemma read_json_filler_span:
  "filler f \<Longrightarrow> at_token rest \<Longrightarrow> read_json_filler (f @ rest) dest = (rest, dest @ f)"
proof (induction f arbitrary: dest)
  case Nil
  then show ?case by (cases rest) (auto simp: at_token_def)
next
  case (Cons c f)
  then show ?case by (simp add: filler_def)
qed

lemma copy_body_span:
  "body_after prev b \<Longrightarrow>
   copy_body (prev = BACKSLASH) (b @ QUOTE # rest) dest = Inr (rest, dest @ b @ [QUOTE])"
  by (induction b arbitrary: prev dest) auto

lemma read_json_string_quoted:
  "string_body b \<Longrightarrow> read_json_string (quoted b @ rest) dest = Inr (rest, dest @ quoted b)"
  using copy_body_span[of QUOTE b rest "dest @ [QUOTE]"]
  by (simp add: string_body_def quoted_def)

lemma skip_body_span:
  "body_after prev b \<Longrightarrow>
   skip_body (prev = BACKSLASH) (b @ QUOTE # rest) dest = Inr (rest, dest @ [REPLACE_CHAR, QUOTE])"
  by (induction b arbitrary: prev dest) auto

lemma read_and_replace_json_string_quoted:
  assumes "string_body b"
  shows "read_and_replace_json_string (quoted b @ rest) dest = Inr (rest, dest @ quoted (mask_body b))"
proof (cases b)
  case Nil
  then show ?thesis by (simp add: quoted_def mask_body_def)
next
  case (Cons c cs)
  with assms have c: "c \<noteq> QUOTE" by (simp add: string_body_def)
  from assms have "skip_body (QUOTE = BACKSLASH) (b @ QUOTE # rest) (dest @ [QUOTE])
      = Inr (rest, (dest @ [QUOTE]) @ [REPLACE_CHAR, QUOTE])"
    unfolding string_body_def by (rule skip_body_span)
  with Cons c show ?thesis by (simp add: quoted_def mask_body_def)
qed

lemma array_elements_gap:
  "gap g \<Longrightarrow> array_elements replace (g @ src) dest = array_elements replace src (dest @ g)"
  by (induction g arbitrary: dest) (auto simp: gap_def)

lemma read_string_quoted:
  "string_body b \<Longrightarrow>
   (if replace then read_and_replace_json_string (quoted b @ rest) dest
    else read_json_string (quoted b @ rest) dest)
   = Inr (rest, dest @ quoted (if replace then mask_body b else b))"
  by (simp add: read_json_string_quoted read_and_replace_json_string_quoted)

lemma array_elements_span:
  "elements_ok es \<Longrightarrow>
   array_elements replace (elements_text es @ RBRACKET # rest) dest
   = Inr (rest, dest @ elements_text (if replace then mask_elements es else es) @ [RBRACKET])"
proof (induction es arbitrary: dest)
  case Nil
  show ?case by (simp add: mask_elements_def)
next
  case (Cons e es)
  obtain b g where e: "e = (b, g)" by (cases e)
  from Cons.prems e have b: "string_body b" and g: "gap g" and es: "elements_ok es"
    by (auto simp: elements_ok_def)
  let ?tail = "g @ elements_text es @ RBRACKET # rest"
  let ?b' = "if replace then mask_body b else b"
  have rd: "(if replace then read_and_replace_json_string (QUOTE # b @ QUOTE # ?tail) dest
             else read_json_string (QUOTE # b @ QUOTE # ?tail) dest)
            = Inr (?tail, dest @ quoted ?b')"
    using read_string_quoted[OF b, of replace ?tail dest]
    by (cases replace)
       (simp_all add: quoted_def
         del: read_json_string.simps read_and_replace_json_string.simps)
  have "array_elements replace (elements_text (e # es) @ RBRACKET # rest) dest
        = array_elements replace (QUOTE # b @ QUOTE # ?tail) dest"
    by (simp add: e quoted_def)
  also have "\<dots> = array_elements replace ?tail (dest @ quoted ?b')"
    by (subst array_elements.simps) (simp only: rd, simp)
  also have "\<dots> = array_elements replace (elements_text es @ RBRACKET # rest) (dest @ quoted ?b' @ g)"
    using array_elements_gap[OF g] by simp
  also have "\<dots> = Inr (rest, (dest @ quoted ?b' @ g) @
                 elements_text (if replace then mask_elements es else es) @ [RBRACKET])"
    by (rule Cons.IH[OF es])
  finally show ?case by (simp add: e mask_elements_def)
qed

lemma read_json_value_span:
  assumes "value_ok v"
  shows "read_json_value (value_text v @ rest) dest replace
         = Inr (rest, dest @ value_text (written_value replace v))"
proof (cases v)
  case (JString b)
  with assms have b: "string_body b" by simp
  from read_string_quoted[OF b, of replace rest dest] JString show ?thesis
    by (cases replace)
       (simp_all add: quoted_def written_value_def
         del: read_json_string.simps read_and_replace_json_string.simps)
next
  case (JArray g es)
  with assms have g: "gap g" and es: "elements_ok es" by (auto simp: elements_ok_def)
  have "read_json_value (value_text v @ rest) dest replace
        = array_elements replace (g @ elements_text es @ RBRACKET # rest) (dest @ [LBRACKET])"
    by (simp add: JArray)
  also have "\<dots> = array_elements replace (elements_text es @ RBRACKET # rest) (dest @ [LBRACKET] @ g)"
    using array_elements_gap[OF g] by simp
  also have "\<dots> = Inr (rest, (dest @ [LBRACKET] @ g) @
                 elements_text (if replace then mask_elements es else es) @ [RBRACKET])"
    by (rule array_elements_span[OF es])
  finally show ?thesis by (simp add: JArray written_value_def mask_elements_def)
qed

lemma target_key_iff:
  "target_key k \<longleftrightarrow> (2 \<le> length k \<and> drop (length k - 2) k = ''_X'')"
proof
  assume "target_key k"
  then obtain zs where "k = zs @ ''_X''"
    by (auto simp: target_key_def TARGET_SUFFIX_def suffix_def)
  then show "2 \<le> length k \<and> drop (length k - 2) k = ''_X''" by simp
next
  assume "2 \<le> length k \<and> drop (length k - 2) k = ''_X''"
  then have "k = take (length k - 2) k @ ''_X''"
    by (metis append_take_drop_id)
  then show "target_key k"
    unfolding target_key_def TARGET_SUFFIX_def by (metis suffixI)
qed

lemma replace_decision_key:
  "replace_decision dest (dest @ quoted k) = target_key k"
proof -
  have "replace_decision dest (dest @ quoted k)
        = (3 \<le> length k + 2 \<and> drop (length dest + (length k + 2) - 3) (dest @ QUOTE # k @ [QUOTE]) = ''_X'' @ [QUOTE])"
    by (simp add: replace_decision_def min_key_len_def ESCAPED_TARGET_SUFFIX_def
        TARGET_SUFFIX_def quoted_def)
  also have "\<dots> = (2 \<le> length k \<and> drop (length k - 2) k = ''_X'')"
  proof (cases "2 \<le> length k")
    case True
    then obtain n where n: "length k = n + 2"
      by (metis add.commute le_Suc_ex)
    then have "drop (length dest + (length k + 2) - 3) (dest @ QUOTE # k @ [QUOTE])
               = drop (length k - 2) k @ [QUOTE]"
      by simp
    with True show ?thesis by simp
  next
    case False
    then have "length k = 0 \<or> length k = 1" by linarith
    then show ?thesis
    proof
      assume "length k = 0"
      then show ?thesis by simp
    next
      assume l: "length k = 1"
      then obtain c where "k = [c]" by (cases k) auto
      then show ?thesis by simp
    qed
  qed
  finally show ?thesis by (simp add: target_key_iff)
qed

lemma at_token_quoted: "at_token (quoted b @ rest)"
  by (simp add: at_token_def quoted_def)

lemma at_token_value_text: "at_token (value_text v @ rest)"
  by (cases v) (simp_all add: at_token_def quoted_def)

lemma member_text_mask_member:
  "member_text (mask_member m)
   = quoted (key m) @ sep m @ value_text (written_value (target_key (key m)) (val m)) @ trail m"
  by (simp add: member_text_def mask_member_def written_value_def)

lemma key_value_pass_span:
  assumes lead: "filler lead" and m: "member_ok m" and rest: "at_token rest"
  shows "key_value_pass (lead @ member_text m @ rest) dest
         = Inr (rest, dest @ lead @ member_text (mask_member m))"
proof -
  let ?k = "key m" and ?v = "val m"
  let ?r = "target_key ?k"
  let ?s1 = "quoted ?k @ sep m @ value_text ?v @ trail m @ rest"
  let ?s2 = "sep m @ value_text ?v @ trail m @ rest"
  let ?s3 = "value_text ?v @ trail m @ rest"
  let ?s4 = "trail m @ rest"
  let ?temp = "dest @ lead"
  let ?d2 = "?temp @ quoted ?k"
  let ?d3 = "?d2 @ sep m"
  let ?d4 = "?d3 @ value_text (written_value ?r ?v)"
  from m have k: "string_body ?k" and sp: "filler (sep m)" and v: "value_ok ?v"
    and tr: "filler (trail m)"
    by (simp_all add: member_ok_def)
  have src: "lead @ member_text m @ rest = lead @ ?s1"
    by (simp add: member_text_def)
  have f1: "read_json_filler (lead @ ?s1) dest = (?s1, ?temp)"
    by (rule read_json_filler_span[OF lead at_token_quoted])
  have ky: "read_json_string ?s1 ?temp = Inr (?s2, ?d2)"
    by (rule read_json_string_quoted[OF k])
  have dec: "replace_decision ?temp ?d2 = ?r"
    by (rule replace_decision_key)
  have f2: "read_json_filler ?s2 ?d2 = (?s3, ?d3)"
    by (rule read_json_filler_span[OF sp at_token_value_text])
  have vl: "read_json_value ?s3 ?d3 ?r = Inr (?s4, ?d4)"
    by (rule read_json_value_span[OF v])
  have f3: "read_json_filler ?s4 ?d4 = (rest, ?d4 @ trail m)"
    by (rule read_json_filler_span[OF tr rest])
  have "key_value_pass (lead @ ?s1) dest = Inr (rest, ?d4 @ trail m)"
    unfolding key_value_pass_def by (simp only: f1 ky dec f2 vl f3 prod.case sum.case)
  then show ?thesis
    by (simp add: src member_text_mask_member)
qed

lemma at_token_members_text: "at_token (members_text ms)"
proof (cases ms)
  case Nil
  then show ?thesis by (simp add: at_token_def members_text_def)
next
  case (Cons m ms')
  then show ?thesis
    by (simp add: at_token_def members_text_def member_text_def quoted_def)
qed

lemma members_loop:
  "\<forall>m \<in> set ms. member_ok m \<Longrightarrow>
   json_replace_no_try_catch (members_text ms) dest
   = Inr (dest @ members_text (map mask_member ms))"
proof (induction ms arbitrary: dest)
  case Nil
  show ?case by (simp add: members_text_def json_replace_no_try_catch.simps)
next
  case (Cons m ms)
  from Cons.prems have m: "member_ok m" and ms: "\<forall>m \<in> set ms. member_ok m" by simp_all
  have src: "members_text (m # ms) = [] @ member_text m @ members_text ms"
    by (simp add: members_text_def)
  have start: "\<not> (members_text (m # ms) = [] \<or> hd (members_text (m # ms)) = NUL)"
    by (simp add: members_text_def member_text_def quoted_def)
  have pass: "key_value_pass (members_text (m # ms)) dest
              = Inr (members_text ms, dest @ [] @ member_text (mask_member m))"
    unfolding src
    by (rule key_value_pass_span[OF _ m at_token_members_text]) (simp add: filler_def)
  have "json_replace_no_try_catch (members_text (m # ms)) dest
        = json_replace_no_try_catch (members_text ms) (dest @ member_text (mask_member m))"
    by (subst json_replace_no_try_catch.simps) (simp add: start pass)
  also have "\<dots> = Inr ((dest @ member_text (mask_member m)) @ members_text (map mask_member ms))"
    by (rule Cons.IH[OF ms])
  finally show ?case by (simp add: members_text_def)
qed

lemma document_loop:
  assumes "document_ok lead ms"
  shows "json_replace_no_try_catch (document_text lead ms) dest
         = Inr (dest @ document_text lead (map mask_member ms))"
proof (cases ms)
  case Nil
  with assms have "lead = []" by (simp add: document_ok_def)
  with Nil show ?thesis
    by (simp add: document_text_def members_text_def json_replace_no_try_catch.simps)
next
  case (Cons m ms')
  from assms Cons have lead: "filler lead" and m: "member_ok m"
    and ms': "\<forall>m \<in> set ms'. member_ok m"
    by (simp_all add: document_ok_def)
  have src: "document_text lead ms = lead @ member_text m @ members_text ms'"
    by (simp add: Cons document_text_def members_text_def)
  have start: "\<not> (document_text lead ms = [] \<or> hd (document_text lead ms) = NUL)"
  proof -
    have "hd (lead @ QUOTE # xs) \<noteq> NUL" for xs
      using lead by (cases lead) (simp_all add: filler_def)
    then show ?thesis by (simp add: src member_text_def quoted_def)
  qed
  have pass: "key_value_pass (document_text lead ms) dest
              = Inr (members_text ms', dest @ lead @ member_text (mask_member m))"
    using key_value_pass_span[OF lead m at_token_members_text, of ms' dest]
    by (simp only: src)
  have "json_replace_no_try_catch (document_text lead ms) dest
        = json_replace_no_try_catch (members_text ms') (dest @ lead @ member_text (mask_member m))"
    by (subst json_replace_no_try_catch.simps) (simp add: start pass)
  also have "\<dots> = Inr ((dest @ lead @ member_text (mask_member m)) @ members_text (map mask_member ms'))"
    by (rule members_loop[OF ms'])
  finally show ?thesis by (simp add: Cons document_text_def members_text_def)
qed

lemma body_after_no_NUL: "body_after prev b \<Longrightarrow> NUL \<notin> set b"
proof (induction b arbitrary: prev)
  case Nil
  show ?case by simp
next
  case (Cons c cs)
  from Cons.prems have c: "c \<noteq> NUL" and cs: "body_after c cs" by simp_all
  from Cons.IH[OF cs] c[symmetric] show ?case by simp
qed

lemma quoted_no_NUL: "string_body b \<Longrightarrow> NUL \<notin> set (quoted b)"
  using body_after_no_NUL[of QUOTE b] by (simp add: string_body_def quoted_def)

lemma gap_no_NUL: "gap g \<Longrightarrow> NUL \<notin> set g"
  by (auto simp: gap_def)

lemma filler_no_NUL: "filler f \<Longrightarrow> NUL \<notin> set f"
  by (auto simp: filler_def)

lemma elements_text_no_NUL: "elements_ok es \<Longrightarrow> NUL \<notin> set (elements_text es)"
proof (induction es)
  case Nil
  show ?case by simp
next
  case (Cons e es)
  obtain b g where e: "e = (b, g)" by (cases e)
  from Cons.prems e have b: "string_body b" and g: "gap g" and es: "elements_ok es"
    by (simp_all add: elements_ok_def)
  from quoted_no_NUL[OF b] gap_no_NUL[OF g] Cons.IH[OF es] show ?case
    by (simp add: e)
qed

lemma value_text_no_NUL:
  assumes "value_ok v"
  shows "NUL \<notin> set (value_text v)"
proof (cases v)
  case (JString b)
  with assms have "string_body b" by simp
  from quoted_no_NUL[OF this] JString show ?thesis by simp
next
  case (JArray g es)
  with assms have g: "gap g" and es: "elements_ok es" by (simp_all add: elements_ok_def)
  from gap_no_NUL[OF g] elements_text_no_NUL[OF es] JArray show ?thesis by simp
qed

lemma member_text_no_NUL:
  assumes "member_ok m"
  shows "NUL \<notin> set (member_text m)"
proof -
  from assms have k: "string_body (key m)" and sp: "filler (sep m)" and v: "value_ok (val m)"
    and tr: "filler (trail m)"
    by (simp_all add: member_ok_def)
  from quoted_no_NUL[OF k] filler_no_NUL[OF sp] value_text_no_NUL[OF v] filler_no_NUL[OF tr]
  show ?thesis by (simp add: member_text_def)
qed

lemma members_text_no_NUL:
  "\<forall>m \<in> set ms. member_ok m \<Longrightarrow> NUL \<notin> set (members_text ms)"
  using member_text_no_NUL by (induction ms) (simp_all add: members_text_def)

lemma document_text_no_NUL:
  assumes "document_ok lead ms"
  shows "NUL \<notin> set (document_text lead ms)"
proof -
  from assms have l: "filler lead" and ms: "\<forall>m \<in> set ms. member_ok m"
    by (simp_all add: document_ok_def)
  from filler_no_NUL[OF l] members_text_no_NUL[OF ms] show ?thesis
    by (simp add: document_text_def)
qed

lemma c_string_id: "NUL \<notin> set s \<Longrightarrow> c_string s = s"
  by (auto simp: c_string_def)

lemma string_body_mask_body: "string_body (mask_body b)"
  by (simp add: string_body_def mask_body_def REPLACE_CHAR_def)

lemma elements_ok_mask_elements: "elements_ok es \<Longrightarrow> elements_ok (mask_elements es)"
  by (auto simp: elements_ok_def mask_elements_def string_body_mask_body)

lemma value_ok_mask_value: "value_ok v \<Longrightarrow> value_ok (mask_value v)"
  by (cases v) (simp_all add: string_body_mask_body elements_ok_mask_elements)

lemma member_ok_mask_member: "member_ok m \<Longrightarrow> member_ok (mask_member m)"
  by (simp add: member_ok_def mask_member_def value_ok_mask_value)

lemma document_ok_mask:
  "document_ok lead ms \<Longrightarrow> document_ok lead (map mask_member ms)"
  by (auto simp: document_ok_def member_ok_mask_member)

lemma json_replace_document:
  assumes "document_ok lead ms"
  shows "json_replace (document_text lead ms) = Inr (document_text lead (map mask_member ms))"
proof -
  have "c_string (document_text lead ms) = document_text lead ms"
    by (rule c_string_id[OF document_text_no_NUL[OF assms]])
  moreover have "c_string (document_text lead (map mask_member ms))
                 = document_text lead (map mask_member ms)"
    by (rule c_string_id[OF document_text_no_NUL[OF document_ok_mask[OF assms]]])
  ultimately show ?thesis
    using document_loop[OF assms, of "[]"] by (simp add: json_replace_def)
qed

subsection \<open>Bytes written against bytes read\<close>

text \<open>
  Every routine writes at most as many bytes as it reads, so a scan that stays inside
  the input also stays inside the destination buffer of \<open>strlen (str) + 1\<close> bytes.
\<close>

lemma read_json_filler_conserves:
  "read_json_filler src dest = (src', dest') \<Longrightarrow>
   length src' + length dest' = length src + length dest"
  by (induction src dest rule: read_json_filler.induct) (auto split: if_splits)

lemma copy_body_conserves:
  "copy_body escaped src dest = Inr (src', dest') \<Longrightarrow>
   length src' + length dest' = length src + length dest"
  by (induction escaped src dest rule: copy_body.induct) (auto split: if_splits)

lemma read_json_string_conserves:
  "read_json_string src dest = Inr (src', dest') \<Longrightarrow>
   length src' + length dest' = length src + length dest"
  by (cases src) (auto dest: copy_body_conserves)

lemma skip_body_bound:
  "skip_body escaped src dest = Inr (src', dest') \<Longrightarrow>
   length src' + length dest' \<le> length src + length dest + 1"
  by (induction escaped src dest rule: skip_body.induct) (auto split: if_splits)

lemma read_and_replace_json_string_bound:
  "read_and_replace_json_string src dest = Inr (src', dest') \<Longrightarrow>
   length src' + length dest' \<le> length src + length dest"
  by (induction src dest rule: read_and_replace_json_string.induct)
     (auto split: if_splits dest: skip_body_bound)

lemma read_string_bound:
  assumes "(if replace then read_and_replace_json_string src dest
            else read_json_string src dest) = Inr (src', dest')"
  shows "length src' + length dest' \<le> length src + length dest"
proof (cases replace)
  case True
  with assms show ?thesis by (simp add: read_and_replace_json_string_bound)
next
  case False
  with assms have "read_json_string src dest = Inr (src', dest')" by simp
  from read_json_string_conserves[OF this] show ?thesis by simp
qed

lemma array_elements_bound:
  "array_elements replace src dest = Inr (src', dest') \<Longrightarrow>
   length src' + length dest' \<le> length src + length dest"
proof (induction replace src dest rule: array_elements.induct)
  case (1 replace dest)
  then show ?case by simp
next
  case (2 replace c src dest)
  show ?case
  proof (cases "c = RBRACKET")
    case True
    with "2.prems" show ?thesis by auto
  next
    case nb: False
    show ?thesis
    proof (cases "c = QUOTE")
      case True
      from "2.prems" nb True obtain s d where
        rd: "(if replace then read_and_replace_json_string (c # src) dest
              else read_json_string (c # src) dest) = Inr (s, d)"
        and rest: "array_elements replace s d = Inr (src', dest')"
        by (auto split: sum.splits)
      from read_string_bound[OF rd] "2.IH"(1)[OF nb True rd refl rest]
      show ?thesis by simp
    next
      case False
      with "2.prems" nb have "array_elements replace src (dest @ [c]) = Inr (src', dest')"
        by simp
      from "2.IH"(2)[OF nb False this] show ?thesis by simp
    qed
  qed
qed

lemma read_json_value_bound:
  assumes "read_json_value src dest replace = Inr (src', dest')"
  shows "length src' + length dest' \<le> length src + length dest"
proof (cases src)
  case Nil
  with assms show ?thesis by simp
next
  case (Cons c s)
  show ?thesis
  proof (cases "c = QUOTE")
    case True
    with assms Cons have
      "(if replace then read_and_replace_json_string src dest
        else read_json_string src dest) = Inr (src', dest')"
      by (cases replace)
         (simp_all del: read_json_string.simps read_and_replace_json_string.simps)
    then show ?thesis by (rule read_string_bound)
  next
    case False
    with assms Cons have "array_elements replace s (dest @ [c]) = Inr (src', dest')"
      by (auto split: if_splits)
    from array_elements_bound[OF this] Cons show ?thesis by simp
  qed
qed

lemma key_value_pass_bound:
  assumes "key_value_pass src dest = Inr (src', dest')"
  shows "length src' + length dest' \<le> length src + length dest"
proof -
  obtain s1 t where f1: "read_json_filler src dest = (s1, t)"
    by (cases "read_json_filler src dest")
  from assms f1 obtain s2 d2 where k: "read_json_string s1 t = Inr (s2, d2)"
    by (auto simp: key_value_pass_def split: sum.splits)
  obtain s3 d3 where f2: "read_json_filler s2 d2 = (s3, d3)"
    by (cases "read_json_filler s2 d2")
  from assms f1 k f2 obtain s4 d4 where
    v: "read_json_value s3 d3 (replace_decision t d2) = Inr (s4, d4)"
    and f3: "read_json_filler s4 d4 = (src', dest')"
    by (auto simp: key_value_pass_def split: sum.splits)
  from read_json_filler_conserves[OF f1] read_json_string_conserves[OF k]
    read_json_filler_conserves[OF f2] read_json_value_bound[OF v]
    read_json_filler_conserves[OF f3]
  show ?thesis by linarith
qed

lemma json_replace_no_try_catch_bound:
  "json_replace_no_try_catch src dest = Inr out \<Longrightarrow> length out \<le> length src + length dest"
proof (induction src dest rule: json_replace_no_try_catch.induct)
  case (1 src dest)
  show ?case
  proof (cases "src = [] \<or> hd src = NUL")
    case True
    with "1.prems" show ?thesis by (simp add: json_replace_no_try_catch.simps)
  next
    case False
    with "1.prems" obtain s d where p: "key_value_pass src dest = Inr (s, d)"
      and l: "json_replace_no_try_catch s d = Inr out"
      by (subst (asm) json_replace_no_try_catch.simps) (auto split: sum.splits)
    from "1.IH"[OF False p refl l] key_value_pass_bound[OF p] show ?thesis by linarith
  qed
qed

lemma c_string_length: "length (c_string s) \<le> length s"
  by (simp add: c_string_def length_takeWhile_le)

subsection \<open>Which errors a routine can raise\<close>

lemma copy_body_error: "copy_body escaped src dest = Inl e \<Longrightarrow> e = ReadPastTerminator"
  by (induction escaped src dest rule: copy_body.induct) (auto split: if_splits)

lemma read_json_string_error: "read_json_string src dest = Inl e \<Longrightarrow> e = ReadPastTerminator"
  by (cases src) (auto dest: copy_body_error)

lemma skip_body_error: "skip_body escaped src dest = Inl e \<Longrightarrow> e = ReadPastTerminator"
  by (induction escaped src dest rule: skip_body.induct) (auto split: if_splits)

lemma read_and_replace_json_string_error:
  "read_and_replace_json_string src dest = Inl e \<Longrightarrow> e = ReadPastTerminator"
  by (induction src dest rule: read_and_replace_json_string.induct)
     (auto split: if_splits dest: skip_body_error)

lemma read_string_error:
  assumes "(if replace then read_and_replace_json_string src dest
            else read_json_string src dest) = Inl e"
  shows "e = ReadPastTerminator"
proof (cases replace)
  case True
  with assms show ?thesis by (simp add: read_and_replace_json_string_error)
next
  case False
  with assms show ?thesis by (simp add: read_json_string_error)
qed

lemma array_elements_error:
  "array_elements replace src dest = Inl e \<Longrightarrow> e = ReadPastTerminator"
proof (induction replace src dest rule: array_elements.induct)
  case (1 replace dest)
  then show ?case by simp
next
  case (2 replace c src dest)
  show ?case
  proof (cases "c = RBRACKET")
    case True
    with "2.prems" show ?thesis by simp
  next
    case nb: False
    show ?thesis
    proof (cases "c = QUOTE")
      case True
      let ?rd = "if replace then read_and_replace_json_string (c # src) dest
                 else read_json_string (c # src) dest"
      have unf: "array_elements replace (c # src) dest =
                 (case ?rd of Inl e \<Rightarrow> Inl e | Inr (s, d) \<Rightarrow> array_elements replace s d)"
        using nb True
        by (simp del: read_json_string.simps read_and_replace_json_string.simps)
      show ?thesis
      proof (cases ?rd)
        case (Inl e')
        with "2.prems" have "e' = e" by (simp only: unf sum.case sum.inject)
        with read_string_error[OF Inl] show ?thesis by simp
      next
        case (Inr r)
        obtain s d where r: "r = (s, d)" by (cases r)
        from "2.prems" have "array_elements replace s d = Inl e"
          by (simp only: unf Inr r sum.case prod.case)
        from "2.IH"(1)[OF nb True Inr[unfolded r] refl this] show ?thesis .
      qed
    next
      case False
      with "2.prems" nb have "array_elements replace src (dest @ [c]) = Inl e" by simp
      from "2.IH"(2)[OF nb False this] show ?thesis .
    qed
  qed
qed

subsection \<open>The read cursor only moves forward\<close>

lemma read_json_filler_suffix:
  "read_json_filler src dest = (src', dest') \<Longrightarrow> suffix src' src"
  by (induction src dest rule: read_json_filler.induct)
     (auto split: if_splits intro: suffix_ConsI)

lemma copy_body_suffix:
  "copy_body escaped src dest = Inr (src', dest') \<Longrightarrow> suffix src' src"
  by (induction escaped src dest rule: copy_body.induct)
     (auto split: if_splits intro: suffix_ConsI)

lemma read_json_string_suffix:
  "read_json_string src dest = Inr (src', dest') \<Longrightarrow> suffix src' src"
  by (cases src) (auto dest: copy_body_suffix intro: suffix_ConsI)

lemma skip_body_suffix:
  "skip_body escaped src dest = Inr (src', dest') \<Longrightarrow> suffix src' src"
  by (induction escaped src dest rule: skip_body.induct)
     (auto split: if_splits intro: suffix_ConsI)

lemma read_and_replace_json_string_suffix:
  "read_and_replace_json_string src dest = Inr (src', dest') \<Longrightarrow> suffix src' src"
  by (induction src dest rule: read_and_replace_json_string.induct)
     (auto split: if_splits dest: skip_body_suffix intro: suffix_ConsI)

lemma read_string_suffix:
  assumes "(if replace then read_and_replace_json_string src dest
            else read_json_string src dest) = Inr (src', dest')"
  shows "suffix src' src"
proof (cases replace)
  case True
  with assms show ?thesis by (simp add: read_and_replace_json_string_suffix)
next
  case False
  with assms show ?thesis by (simp add: read_json_string_suffix)
qed

lemma array_elements_suffix:
  "array_elements replace src dest = Inr (src', dest') \<Longrightarrow> suffix src' src"
proof (induction replace src dest rule: array_elements.induct)
  case (1 replace dest)
  then show ?case by simp
next
  case (2 replace c src dest)
  show ?case
  proof (cases "c = RBRACKET")
    case True
    with "2.prems" show ?thesis by (auto intro: suffix_ConsI)
  next
    case nb: False
    show ?thesis
    proof (cases "c = QUOTE")
      case True
      from "2.prems" nb True obtain s d where
        rd: "(if replace then read_and_replace_json_string (c # src) dest
              else read_json_string (c # src) dest) = Inr (s, d)"
        and rest: "array_elements replace s d = Inr (src', dest')"
        by (auto split: sum.splits)
      from "2.IH"(1)[OF nb True rd refl rest] read_string_suffix[OF rd]
      show ?thesis by (rule suffix_order.trans)
    next
      case False
      with "2.prems" nb have "array_elements replace src (dest @ [c]) = Inr (src', dest')"
        by simp
      from "2.IH"(2)[OF nb False this] show ?thesis by (rule suffix_ConsI)
    qed
  qed
qed

lemma read_json_value_suffix:
  assumes "read_json_value src dest replace = Inr (src', dest')"
  shows "suffix src' src"
proof (cases src)
  case Nil
  with assms show ?thesis by simp
next
  case (Cons c s)
  show ?thesis
  proof (cases "c = QUOTE")
    case True
    with assms Cons have
      "(if replace then read_and_replace_json_string src dest
        else read_json_string src dest) = Inr (src', dest')"
      by (cases replace)
         (simp_all del: read_json_string.simps read_and_replace_json_string.simps)
    then show ?thesis by (rule read_string_suffix)
  next
    case False
    with assms Cons have "array_elements replace s (dest @ [c]) = Inr (src', dest')"
      by (auto split: if_splits)
    from array_elements_suffix[OF this] Cons show ?thesis by (simp add: suffix_ConsI)
  qed
qed

lemma key_value_pass_suffix:
  assumes "key_value_pass src dest = Inr (src', dest')"
  shows "suffix src' src"
proof -
  obtain s1 t where f1: "read_json_filler src dest = (s1, t)"
    by (cases "read_json_filler src dest")
  from assms f1 obtain s2 d2 where k: "read_json_string s1 t = Inr (s2, d2)"
    by (auto simp: key_value_pass_def split: sum.splits)
  obtain s3 d3 where f2: "read_json_filler s2 d2 = (s3, d3)"
    by (cases "read_json_filler s2 d2")
  from assms f1 k f2 obtain s4 d4 where
    v: "read_json_value s3 d3 (replace_decision t d2) = Inr (s4, d4)"
    and f3: "read_json_filler s4 d4 = (src', dest')"
    by (auto simp: key_value_pass_def split: sum.splits)
  have "suffix src' s4" by (rule read_json_filler_suffix[OF f3])
  also have "suffix s4 s3" by (rule read_json_value_suffix[OF v])
  also have "suffix s3 s2" by (rule read_json_filler_suffix[OF f2])
  also have "suffix s2 s1" by (rule read_json_string_suffix[OF k])
  also have "suffix s1 src" by (rule read_json_filler_suffix[OF f1])
  finally show ?thesis .
qed

lemma strict_suffixI':
  "suffix xs ys \<Longrightarrow> length xs < length ys \<Longrightarrow> strict_suffix xs ys"
  by (auto simp: strict_suffix_def)

subsection \<open>Documents, member by member\<close>



lemma members_text_Cons: "members_text (m # ms) = member_text m @ members_text ms"
  by (simp add: members_text_def)

lemma members_text_append: "members_text (ms @ ns) = members_text ms @ members_text ns"
  by (simp add: members_text_def)

lemma elements_text_append: "elements_text (es @ fs) = elements_text es @ elements_text fs"
  by (induction es) auto

lemma mask_elements_append: "mask_elements (es @ fs) = mask_elements es @ mask_elements fs"
  by (simp add: mask_elements_def)

lemma mask_elements_Cons: "mask_elements ((b, g) # es) = (mask_body b, g) # mask_elements es"
  by (simp add: mask_elements_def)

lemma masked_document_split:
  "document_text lead (map mask_member (pre @ m # post))
   = document_text lead (map mask_member pre) @ member_text (mask_member m)
     @ members_text (map mask_member post)"
  by (simp add: document_text_def members_text_append members_text_Cons)






lemma replace_decision_span:
  "replace_decision temp (temp @ span)
   = (3 \<le> length span \<and> drop (length span - 3) span = ''_X'' @ [QUOTE])"
proof (cases "3 \<le> length span")
  case True
  then have "length temp + length span - 3 = length temp + (length span - 3)" by simp
  with True show ?thesis
    by (simp add: replace_decision_def min_key_len_def ESCAPED_TARGET_SUFFIX_def
        TARGET_SUFFIX_def)
next
  case False
  then show ?thesis
    by (simp add: replace_decision_def min_key_len_def ESCAPED_TARGET_SUFFIX_def
        TARGET_SUFFIX_def)
qed

section \<open>The claims\<close>

text \<open>
  C1. The claim holds of every input whose strings the readers close where JSON closes
  them, and fails where an escaped backslash stands directly before a closing quote.
  Both inputs below are flat JSON of the accepted shape, every string body a JSON body.
  In \<open>"k_X":["a\\","b\"c"]\<close> the masked copy is \<open>"k_X":["*","*"]\<close>; the transform
  returns \<open>"k_X":["*"b\"*"]\<close>, the two elements read as one and the bytes \<open>b\\<close> of the
  second left in clear. In \<open>"a":"\\","b_X":"s\"t"\<close> the masked copy ends with
  \<open>"b_X":"*"\<close>; the transform returns the input unchanged, the value of \<open>b_X\<close> in clear.
\<close>

theorem escaped_backslash_merges_masked_elements:
  \<open>json_body False (''a'' @ [BACKSLASH, BACKSLASH])
   \<and> json_body False (''b'' @ [BACKSLASH, QUOTE] @ ''c'')
   \<and> target_key ''k_X''
   \<and> document_text []
        [Member ''k_X'' '':''
           (JArray [] [(''a'' @ [BACKSLASH, BACKSLASH], '',''),
                       (''b'' @ [BACKSLASH, QUOTE] @ ''c'', [])]) []]
       = ''"k_X":["a'' @ [BACKSLASH, BACKSLASH] @ ''","b'' @ [BACKSLASH] @ ''"c"]''
   \<and> document_text []
        (map mask_member
          [Member ''k_X'' '':''
             (JArray [] [(''a'' @ [BACKSLASH, BACKSLASH], '',''),
                         (''b'' @ [BACKSLASH, QUOTE] @ ''c'', [])]) []])
       = ''"k_X":["*","*"]''
   \<and> json_replace (''"k_X":["a'' @ [BACKSLASH, BACKSLASH] @ ''","b'' @ [BACKSLASH] @ ''"c"]'')
       = Inr (''"k_X":["*"b'' @ [BACKSLASH] @ ''"*"]'')
   \<and> json_body False [BACKSLASH, BACKSLASH]
   \<and> json_body False (''s'' @ [BACKSLASH, QUOTE] @ ''t'')
   \<and> target_key ''b_X''
   \<and> document_text []
        [Member ''a'' '':'' (JString [BACKSLASH, BACKSLASH]) '','',
         Member ''b_X'' '':'' (JString (''s'' @ [BACKSLASH, QUOTE] @ ''t'')) []]
       = ''"a":"'' @ [BACKSLASH, BACKSLASH] @ ''","b_X":"s'' @ [BACKSLASH] @ ''"t"''
   \<and> document_text []
        (map mask_member
          [Member ''a'' '':'' (JString [BACKSLASH, BACKSLASH]) '','',
           Member ''b_X'' '':'' (JString (''s'' @ [BACKSLASH, QUOTE] @ ''t'')) []])
       = ''"a":"'' @ [BACKSLASH, BACKSLASH] @ ''","b_X":"*"''
   \<and> json_replace (''"a":"'' @ [BACKSLASH, BACKSLASH] @ ''","b_X":"s'' @ [BACKSLASH] @ ''"t"'')
       = Inr (''"a":"'' @ [BACKSLASH, BACKSLASH] @ ''","b_X":"s'' @ [BACKSLASH] @ ''"t"'')\<close>
  by code_simp

text \<open>
  C4. The identity on inputs without a target key fails on two inputs of the accepted
  shape. In \<open>{"k":"a\\"}\<close> the key is no target and the string body is a JSON body, yet
  the reader takes the closing quote for an escaped one and the scan runs past the
  terminator. On \<open>{}\<close>, filler with no key after it, the loop is entered because the
  input is not empty, the filler scanner runs to the terminator and the key reader
  steps over it. Neither run returns the input.
\<close>

theorem escaped_backslash_breaks_identity:
  \<open>json_body False (''a'' @ [BACKSLASH, BACKSLASH])
   \<and> \<not> target_key ''k''
   \<and> document_text ''{'' [Member ''k'' '':'' (JString (''a'' @ [BACKSLASH, BACKSLASH])) ''}'']
       = ''{"k":"a'' @ [BACKSLASH, BACKSLASH] @ ''"}''
   \<and> json_replace (''{"k":"a'' @ [BACKSLASH, BACKSLASH] @ ''"}'') = Inl ReadPastTerminator
   \<and> json_replace ''{}'' = Inl ReadPastTerminator\<close>
  by code_simp

text \<open>
  C3. Under a target key an empty string stays empty. Whatever stands before and after
  the member in the document, a scalar value \<open>""\<close> is written as \<open>""\<close>, and an element
  \<open>""\<close> at any position of an array is written as \<open>""\<close> while its neighbours are masked;
  the masking reader itself copies \<open>""\<close> and returns.
\<close>

theorem empty_string_values_stay_empty:
  assumes "document_ok lead (pre @ m # post)" and "target_key (key m)"
  shows "(val m = JString [] \<longrightarrow>
            json_replace (document_text lead (pre @ m # post))
            = Inr (document_text lead (map mask_member pre)
                   @ quoted (key m) @ sep m @ [QUOTE, QUOTE] @ trail m
                   @ members_text (map mask_member post)))
       \<and> (\<forall>g es1 g' es2. val m = JArray g (es1 @ ([], g') # es2) \<longrightarrow>
            json_replace (document_text lead (pre @ m # post))
            = Inr (document_text lead (map mask_member pre)
                   @ quoted (key m) @ sep m
                   @ LBRACKET # g @ elements_text (mask_elements es1)
                   @ [QUOTE, QUOTE] @ g' @ elements_text (mask_elements es2) @ [RBRACKET]
                   @ trail m
                   @ members_text (map mask_member post)))
       \<and> (\<forall>rest dest. read_and_replace_json_string (QUOTE # QUOTE # rest) dest
                       = Inr (rest, dest @ [QUOTE, QUOTE]))"
proof -
  have out: "json_replace (document_text lead (pre @ m # post))
             = Inr (document_text lead (map mask_member pre) @ member_text (mask_member m)
                    @ members_text (map mask_member post))"
    using json_replace_document[OF assms(1)] by (simp only: masked_document_split)
  have scalar: "member_text (mask_member m)
                = quoted (key m) @ sep m @ [QUOTE, QUOTE] @ trail m"
    if "val m = JString []"
    using that assms(2)
    by (simp add: member_text_def mask_member_def mask_body_def quoted_def)
  have element: "member_text (mask_member m)
                 = quoted (key m) @ sep m
                   @ LBRACKET # g @ elements_text (mask_elements es1)
                   @ [QUOTE, QUOTE] @ g' @ elements_text (mask_elements es2) @ [RBRACKET]
                   @ trail m"
    if "val m = JArray g (es1 @ ([], g') # es2)" for g es1 g' es2
    using that assms(2)
    by (simp add: member_text_def mask_member_def mask_body_def quoted_def
        mask_elements_append mask_elements_Cons elements_text_append)
  show ?thesis
    using out scalar element by simp
qed

theorem empty_string_values_stay_empty_witness:
  \<open>json_replace ''"key": ["x"], "key2_X": ["", "y"], "k_X": ""''
   = Inr ''"key": ["x"], "key2_X": ["", "*"], "k_X": ""''\<close>
proof -
  let ?m1 = "Member ''key'' '': '' (JArray [] [(''x'', [])]) '', ''"
  let ?m2 = "Member ''key2_X'' '': '' (JArray [] ([] @ ([], '', '') # [(''y'', [])])) '', ''"
  let ?m3 = "Member ''k_X'' '': '' (JString []) []"
  have ok: "document_ok [] ([?m1] @ ?m2 # [?m3])" by code_simp
  have tk: "target_key (key ?m2)" by code_simp
  have v: "val ?m2 = JArray [] ([] @ ([], '', '') # [(''y'', [])])" by simp
  have inp: \<open>document_text [] ([?m1] @ ?m2 # [?m3])
     = ''"key": ["x"], "key2_X": ["", "y"], "k_X": ""''\<close>
    by code_simp
  have outp: \<open>document_text [] (map mask_member [?m1])
                   @ quoted (key ?m2) @ sep ?m2
                   @ LBRACKET # [] @ elements_text (mask_elements [])
                   @ [QUOTE, QUOTE] @ '', '' @ elements_text (mask_elements [(''y'', [])])
                   @ [RBRACKET] @ trail ?m2
                   @ members_text (map mask_member [?m3])
     = ''"key": ["x"], "key2_X": ["", "*"], "k_X": ""''\<close>
    by code_simp
  from empty_string_values_stay_empty[OF ok tk] v
  have "json_replace (document_text [] ([?m1] @ ?m2 # [?m3]))
        = Inr (document_text [] (map mask_member [?m1])
                   @ quoted (key ?m2) @ sep ?m2
                   @ LBRACKET # [] @ elements_text (mask_elements [])
                   @ [QUOTE, QUOTE] @ '', '' @ elements_text (mask_elements [(''y'', [])])
                   @ [RBRACKET] @ trail ?m2
                   @ members_text (map mask_member [?m3]))"
    by blast
  then show ?thesis by (simp only: inp outp)
qed

text \<open>
  C10. The value reader copies \<open>[]\<close> whatever the replace flag is, and a member whose
  value is \<open>[]\<close> keeps it under any key, a target key included; no error is raised.
\<close>

theorem empty_array_is_kept:
  assumes "document_ok lead (pre @ m # post)" and "val m = JArray [] []"
  shows "json_replace (document_text lead (pre @ m # post))
         = Inr (document_text lead (map mask_member pre)
                @ quoted (key m) @ sep m @ [LBRACKET, RBRACKET] @ trail m
                @ members_text (map mask_member post))
       \<and> read_json_value (LBRACKET # RBRACKET # rest) dest replace
         = Inr (rest, dest @ [LBRACKET, RBRACKET])"
proof -
  have out: "json_replace (document_text lead (pre @ m # post))
             = Inr (document_text lead (map mask_member pre) @ member_text (mask_member m)
                    @ members_text (map mask_member post))"
    using json_replace_document[OF assms(1)] by (simp only: masked_document_split)
  have "member_text (mask_member m) = quoted (key m) @ sep m @ [LBRACKET, RBRACKET] @ trail m"
    using assms(2)
    by (simp add: member_text_def mask_member_def mask_elements_def)
  with out show ?thesis by simp
qed

theorem empty_array_is_kept_witness:
  \<open>json_replace ''{"a_X": "v", "k_X": [], "b": []}'' = Inr ''{"a_X": "*", "k_X": [], "b": []}''\<close>
proof -
  let ?m1 = "Member ''a_X'' '': '' (JString ''v'') '', ''"
  let ?m2 = "Member ''k_X'' '': '' (JArray [] []) '', ''"
  let ?m3 = "Member ''b'' '': '' (JArray [] []) ''}''"
  have ok: "document_ok ''{'' ([?m1] @ ?m2 # [?m3])" by code_simp
  have v: "val ?m2 = JArray [] []" by simp
  have inp: \<open>document_text ''{'' ([?m1] @ ?m2 # [?m3]) = ''{"a_X": "v", "k_X": [], "b": []}''\<close>
    by code_simp
  have outp: \<open>document_text ''{'' (map mask_member [?m1])
                @ quoted (key ?m2) @ sep ?m2 @ [LBRACKET, RBRACKET] @ trail ?m2
                @ members_text (map mask_member [?m3])
     = ''{"a_X": "*", "k_X": [], "b": []}''\<close>
    by code_simp
  from empty_array_is_kept[OF ok v]
  have "json_replace (document_text ''{'' ([?m1] @ ?m2 # [?m3]))
        = Inr (document_text ''{'' (map mask_member [?m1])
                @ quoted (key ?m2) @ sep ?m2 @ [LBRACKET, RBRACKET] @ trail ?m2
                @ members_text (map mask_member [?m3]))"
    by (rule conjunct1)
  then show ?thesis by (simp only: inp outp)
qed

text \<open>
  C8, as stated, fails: not every scan routine strictly advances the cursor. On the
  input \<open>"key": "v"\<close>, which the transform returns unchanged, the first call of the filler
  scanner finds a quote under the cursor and returns at once, the cursor where it was.
\<close>

theorem filler_scanner_may_consume_nothing:
  \<open>read_json_filler ''"key": "v"'' [] = (''"key": "v"'', [])
   \<and> \<not> strict_suffix ''"key": "v"'' ''"key": "v"''
   \<and> json_replace ''"key": "v"'' = Inr ''"key": "v"''\<close>
  by code_simp

text \<open>
  C8, amended. On every text the scanners read as a document (the empty input, or
  filler followed by at least one member, every string closed by the first quote that
  does not directly follow a backslash) the transform returns a result: the scan
  reaches the terminator and never reads beyond it. It is one pass from left to right:
  whatever the input, the filler scanner leaves the read cursor where it was or further
  on, and each string reader, the value reader and each pass of the driver's loop leave
  it strictly further on, at a proper suffix of what was unread. The recursions of the
  model are defined by that measure, the length of the unread input.
\<close>

theorem json_replace_returns_on_documents:
  assumes "document_ok lead ms"
  shows "(\<exists>out. json_replace (document_text lead ms) = Inr out)
       \<and> (\<forall>src dest src' dest'.
            read_json_filler src dest = (src', dest') \<longrightarrow> suffix src' src)
       \<and> (\<forall>src dest src' dest'.
            read_json_string src dest = Inr (src', dest') \<longrightarrow> strict_suffix src' src)
       \<and> (\<forall>src dest src' dest'.
            read_and_replace_json_string src dest = Inr (src', dest') \<longrightarrow>
            strict_suffix src' src)
       \<and> (\<forall>src dest replace src' dest'.
            read_json_value src dest replace = Inr (src', dest') \<longrightarrow> strict_suffix src' src)
       \<and> (\<forall>src dest src' dest'.
            key_value_pass src dest = Inr (src', dest') \<longrightarrow> strict_suffix src' src)"
proof -
  have "\<exists>out. json_replace (document_text lead ms) = Inr out"
    using json_replace_document[OF assms] by blast
  moreover have "suffix src' src" if "read_json_filler src dest = (src', dest')"
    for src dest src' dest'
    using that by (rule read_json_filler_suffix)
  moreover have "strict_suffix src' src" if "read_json_string src dest = Inr (src', dest')"
    for src dest src' dest'
    using read_json_string_suffix[OF that] read_json_string_shorter[OF that]
    by (rule strict_suffixI')
  moreover have "strict_suffix src' src"
    if "read_and_replace_json_string src dest = Inr (src', dest')" for src dest src' dest'
    using read_and_replace_json_string_suffix[OF that]
      read_and_replace_json_string_shorter[OF that]
    by (rule strict_suffixI')
  moreover have "strict_suffix src' src"
    if "read_json_value src dest replace = Inr (src', dest')" for src dest replace src' dest'
    using read_json_value_suffix[OF that] read_json_value_shorter[OF that]
    by (rule strict_suffixI')
  moreover have "strict_suffix src' src" if "key_value_pass src dest = Inr (src', dest')"
    for src dest src' dest'
    using key_value_pass_suffix[OF that] key_value_pass_shorter[OF that]
    by (rule strict_suffixI')
  ultimately show ?thesis by blast
qed

theorem json_replace_returns_on_documents_witness:
  \<open>\<exists>out. json_replace ''{"key" : "val", "key_X" : ["a", "b"]}'' = Inr out\<close>
proof -
  let ?ms = "[Member ''key'' '' : '' (JString ''val'') '', '',
              Member ''key_X'' '' : '' (JArray [] [(''a'', '', ''), (''b'', [])]) ''}'']"
  have ok: "document_ok ''{'' ?ms" by code_simp
  have inp: \<open>document_text ''{'' ?ms = ''{"key" : "val", "key_X" : ["a", "b"]}''\<close>
    by code_simp
  from json_replace_returns_on_documents[OF ok]
  have "\<exists>out. json_replace (document_text ''{'' ?ms) = Inr out" by (rule conjunct1)
  then show ?thesis by (simp only: inp)
qed

text \<open>
  C7. Whenever the transform returns a string, on any input at all, the string is no
  longer than the input.
\<close>

theorem output_length_at_most_input_length:
  assumes "json_replace str = Inr out"
  shows "length out \<le> length str"
proof -
  from assms obtain dest where
    loop: "json_replace_no_try_catch (c_string str) [] = Inr dest"
    and out: "out = c_string dest"
    by (auto simp: json_replace_def split: sum.splits error.splits)
  have "length out \<le> length dest" unfolding out by (rule c_string_length)
  also have "\<dots> \<le> length (c_string str) + length ([]::string)"
    by (rule json_replace_no_try_catch_bound[OF loop])
  also have "\<dots> \<le> length str" using c_string_length[of str] by simp
  finally show ?thesis .
qed

theorem output_length_at_most_input_length_witness:
  \<open>json_replace ''"key_X": "value2", "k": ["a"], "e_X": ["", "b"]''
     = Inr ''"key_X": "*", "k": ["a"], "e_X": ["", "*"]''
   \<and> length ''"key_X": "*", "k": ["a"], "e_X": ["", "*"]''
     \<le> length ''"key_X": "value2", "k": ["a"], "e_X": ["", "b"]''\<close>
proof -
  have run: \<open>json_replace ''"key_X": "value2", "k": ["a"], "e_X": ["", "b"]''
     = Inr ''"key_X": "*", "k": ["a"], "e_X": ["", "*"]''\<close>
    by code_simp
  from output_length_at_most_input_length[OF run] run show ?thesis by (rule conjI[rotated])
qed

text \<open>
  C9. Once the value reader has seen an open bracket it cannot raise \<open>UnsupportedValue\<close>,
  whatever follows. Bytes between the elements that are neither a quote nor the close
  bracket are copied as they are, so an array holding tokens that are not strings is
  read to its close bracket, the tokens unchanged and the strings masked or copied by
  the flag; \<open>"key_X": [42, "a"]\<close> becomes \<open>"key_X": [42, "*"]\<close>.
\<close>

theorem array_value_never_unsupported:
  assumes "gap g" and "elements_ok es"
  shows \<open>read_json_value (LBRACKET # src) dest replace \<noteq> Inl UnsupportedValue
       \<and> array_elements replace (g @ src) dest = array_elements replace src (dest @ g)
       \<and> read_json_value (value_text (JArray g es) @ rest) dest replace
         = Inr (rest, dest @ value_text (written_value replace (JArray g es)))
       \<and> json_replace ''"key_X": [42, "a"]'' = Inr ''"key_X": [42, "*"]''\<close>
proof -
  have "read_json_value (LBRACKET # src) dest replace \<noteq> Inl UnsupportedValue"
  proof
    assume "read_json_value (LBRACKET # src) dest replace = Inl UnsupportedValue"
    then have "array_elements replace src (dest @ [LBRACKET]) = Inl UnsupportedValue"
      by simp
    from array_elements_error[OF this] show False by simp
  qed
  moreover have "array_elements replace (g @ src) dest = array_elements replace src (dest @ g)"
    by (rule array_elements_gap[OF assms(1)])
  moreover have "read_json_value (value_text (JArray g es) @ rest) dest replace
         = Inr (rest, dest @ value_text (written_value replace (JArray g es)))"
    by (rule read_json_value_span) (simp add: assms)
  moreover have \<open>json_replace ''"key_X": [42, "a"]'' = Inr ''"key_X": [42, "*"]''\<close>
    by code_simp
  ultimately show ?thesis by blast
qed

theorem array_value_never_unsupported_witness:
  \<open>read_json_value ''[42, "a", true]'' [] True = Inr ([], ''[42, "*", true]'')\<close>
proof -
  have g: "gap ''42, ''" by code_simp
  have es: "elements_ok [(''a'', '', true'')]" by code_simp
  have inp: \<open>value_text (JArray ''42, '' [(''a'', '', true'')]) @ [] = ''[42, "a", true]''\<close>
    by code_simp
  have outp: \<open>[] @ value_text (written_value True (JArray ''42, '' [(''a'', '', true'')]))
              = ''[42, "*", true]''\<close>
    by code_simp
  from array_value_never_unsupported[OF g es, where rest="[]" and dest="[]" and replace=True]
  have "read_json_value (value_text (JArray ''42, '' [(''a'', '', true'')]) @ []) [] True
        = Inr ([], [] @ value_text (written_value True (JArray ''42, '' [(''a'', '', true'')])))"
    by blast
  then show ?thesis by (simp only: inp outp)
qed

text \<open>
  C5. The replace decision of a pass is a test on the key span, quotes included: the
  span has at least three bytes and its last three bytes are \<open>_X\<close> and the closing
  quote. It is computed from the destination buffer right after the key is copied, and
  the value of that pass is written masked exactly when it holds. The comparison is of
  bytes: the key \<open>"_X"\<close> is a target, so \<open>"val2"\<close> becomes \<open>"*"\<close>, while \<open>"_x"\<close> and
  \<open>"_X "\<close> are not.
\<close>

theorem replace_decision_is_literal_suffix_test:
  assumes "filler lead" and "member_ok m" and "at_token rest"
  shows \<open>replace_decision temp (temp @ span)
         = (3 \<le> length span \<and> drop (length span - 3) span = ''_X"'')
       \<and> key_value_pass (lead @ member_text m @ rest) dest
         = Inr (rest, dest @ lead @ quoted (key m) @ sep m
                  @ value_text (written_value
                      (3 \<le> length (quoted (key m))
                       \<and> drop (length (quoted (key m)) - 3) (quoted (key m)) = ''_X"'')
                      (val m))
                  @ trail m)
       \<and> json_replace ''"_X": "val2"'' = Inr ''"_X": "*"''
       \<and> json_replace ''"_x": "val2"'' = Inr ''"_x": "val2"''
       \<and> json_replace ''"_X ": "val2"'' = Inr ''"_X ": "val2"''\<close>
proof -
  have d: \<open>replace_decision t (t @ s)
         = (3 \<le> length s \<and> drop (length s - 3) s = ''_X"'')\<close> for t s
    using replace_decision_span[of t s] by simp
  have \<open>target_key (key m)
        = (3 \<le> length (quoted (key m))
           \<and> drop (length (quoted (key m)) - 3) (quoted (key m)) = ''_X"'')\<close>
    using replace_decision_key[of "[]" "key m"] d[of "[]" "quoted (key m)"] by simp
  with key_value_pass_span[OF assms, of dest]
  have \<open>key_value_pass (lead @ member_text m @ rest) dest
         = Inr (rest, dest @ lead @ quoted (key m) @ sep m
                  @ value_text (written_value
                      (3 \<le> length (quoted (key m))
                       \<and> drop (length (quoted (key m)) - 3) (quoted (key m)) = ''_X"'')
                      (val m))
                  @ trail m)\<close>
    by (simp add: member_text_mask_member)
  moreover have \<open>json_replace ''"_X": "val2"'' = Inr ''"_X": "*"''\<close> by code_simp
  moreover have \<open>json_replace ''"_x": "val2"'' = Inr ''"_x": "val2"''\<close> by code_simp
  moreover have \<open>json_replace ''"_X ": "val2"'' = Inr ''"_X ": "val2"''\<close> by code_simp
  ultimately show ?thesis using d[of temp span] by blast
qed

theorem replace_decision_is_literal_suffix_test_witness:
  \<open>key_value_pass '', "k_X" : ["a","bc"], "n": "v"'' ''{"a":"b"''
   = Inr (''"n": "v"'', ''{"a":"b", "k_X" : ["*","*"], '')\<close>
proof -
  let ?m = "Member ''k_X'' '' : '' (JArray [] [(''a'', '',''), (''bc'', [])]) '', ''"
  have l: "filler '', ''" by code_simp
  have m: "member_ok ?m" by code_simp
  have r: \<open>at_token ''"n": "v"''\<close> by code_simp
  have inp: \<open>'', '' @ member_text ?m @ ''"n": "v"'' = '', "k_X" : ["a","bc"], "n": "v"''\<close>
    by code_simp
  have outp: \<open>''{"a":"b"'' @ '', '' @ quoted (key ?m) @ sep ?m
                  @ value_text (written_value
                      (3 \<le> length (quoted (key ?m))
                       \<and> drop (length (quoted (key ?m)) - 3) (quoted (key ?m)) = ''_X"'')
                      (val ?m))
                  @ trail ?m
               = ''{"a":"b", "k_X" : ["*","*"], ''\<close>
    by code_simp
  from replace_decision_is_literal_suffix_test[OF l m r, where dest = \<open>''{"a":"b"''\<close>]
  have \<open>key_value_pass ('', '' @ member_text ?m @ ''"n": "v"'') ''{"a":"b"''
         = Inr (''"n": "v"'', ''{"a":"b"'' @ '', '' @ quoted (key ?m) @ sep ?m
                  @ value_text (written_value
                      (3 \<le> length (quoted (key ?m))
                       \<and> drop (length (quoted (key ?m)) - 3) (quoted (key ?m)) = ''_X"'')
                      (val ?m))
                  @ trail ?m)\<close>
    by blast
  then show ?thesis by (simp only: inp outp)
qed




text \<open>
  C6. The verbatim reader copies a literal with an escaped quote inside exactly, as in
  \<open>"k":"va\"lue"\<close>. It does not stop at the closing quote of the JSON literal \<open>"a\\"\<close>:
  having copied it, the reader goes on copying what follows as more of the body, and on
  the input \<open>"k":"a\\"\<close> it reads past the terminator.
\<close>

theorem verbatim_reader_overruns_escaped_backslash:
  \<open>read_json_string (''"a'' @ [BACKSLASH, BACKSLASH, QUOTE] @ rest) dest
     = copy_body False rest (dest @ ''"a'' @ [BACKSLASH, BACKSLASH, QUOTE])
   \<and> json_replace (''"k":"a'' @ [BACKSLASH, BACKSLASH, QUOTE]) = Inl ReadPastTerminator
   \<and> json_replace (''"k":"va'' @ [BACKSLASH, QUOTE] @ ''lue"'')
     = Inr (''"k":"va'' @ [BACKSLASH, QUOTE] @ ''lue"'')\<close>
proof -
  have \<open>read_json_string (''"a'' @ [BACKSLASH, BACKSLASH, QUOTE] @ rest) dest
     = copy_body False rest (dest @ ''"a'' @ [BACKSLASH, BACKSLASH, QUOTE])\<close>
    by simp
  moreover have
    \<open>json_replace (''"k":"a'' @ [BACKSLASH, BACKSLASH, QUOTE]) = Inl ReadPastTerminator\<close>
    by code_simp
  moreover have \<open>json_replace (''"k":"va'' @ [BACKSLASH, QUOTE] @ ''lue"'')
     = Inr (''"k":"va'' @ [BACKSLASH, QUOTE] @ ''lue"'')\<close>
    by code_simp
  ultimately show ?thesis by blast
qed

end
